theory Spec2Isabelle
  imports Complex_Main
begin

section \<open>Values and objects\<close>

text \<open>
  The program is a React component (\<^verbatim>\<open>src/DigitalGovernanceFramework.jsx\<close>). Its object
  literals are modelled as association lists from property names to values, in property
  order, so that "which fields does this object have" is a statement about the keys.
  JavaScript numbers are modelled as reals: the arithmetic of the simulator and of the
  threshold tests is taken exactly, without the rounding of IEEE doubles, and there is no
  NaN.
\<close>

datatype jsval =
    Str string
  | ServerTimestamp      \<comment> \<open>the placeholder returned by \<^verbatim>\<open>serverTimestamp()\<close>\<close>
  | Timestamp int        \<comment> \<open>a resolved Firestore timestamp (has \<^verbatim>\<open>toDate\<close>), in ms since the epoch\<close>
  | Null                 \<comment> \<open>any value without a \<^verbatim>\<open>toDate\<close> method that is not a string\<close>

type_synonym obj = "(string \<times> jsval) list"

definition get_field :: "obj \<Rightarrow> string \<Rightarrow> jsval option" where
  "get_field ob k = map_of ob k"

definition set_field :: "string \<Rightarrow> jsval \<Rightarrow> obj \<Rightarrow> obj" where
  \<comment> \<open>an existing property keeps its place, a new one is added at the end\<close>
  "set_field k v ob = (if k \<in> set (map fst ob) then map (\<lambda>(k', v'). if k' = k then (k', v) else (k', v')) ob
                       else ob @ [(k, v)])"

definition keys :: "obj \<Rightarrow> string list" where
  "keys ob = map fst ob"

section \<open>Number formatting\<close>

fun digits :: "nat \<Rightarrow> string" where
  "digits n = (if n < 10 then [''0123456789'' ! n]
               else digits (n div 10) @ [''0123456789'' ! (n mod 10)])"

definition toFixed0 :: "real \<Rightarrow> string" where
  \<comment> \<open>\<^verbatim>\<open>x.toFixed(0)\<close>: the nearest integer, the larger one on a tie, sign first. For
      \<open>\<bar>x\<bar> \<ge> 10^21\<close> JavaScript switches to exponent notation; the program only formats
      percentages, and the model does not follow it there.\<close>
  "toFixed0 x = (if x < 0 then ''-'' @ digits (nat \<lfloor>- x + 1 / 2\<rfloor>)
                 else digits (nat \<lfloor>x + 1 / 2\<rfloor>))"

section \<open>The rule table\<close>

record waste_rule =
  targetArea :: string
  collectionSchedule :: "string list"
  maxVolume :: real
  fine :: nat

record traffic_rule =
  maxDensity :: real
  sensorLocations :: "string list"
  alertLevel :: string

definition WASTE_COMPLIANCE :: waste_rule where
  "WASTE_COMPLIANCE = \<lparr> targetArea = ''Cihampelas'',
      collectionSchedule = [''Monday'', ''Wednesday'', ''Friday''],
      maxVolume = 0.8, fine = 500000 \<rparr>"

definition TRAFFIC_COMPLIANCE :: traffic_rule where
  "TRAFFIC_COMPLIANCE = \<lparr> maxDensity = 0.75,
      sensorLocations = [''Dago'', ''Pasteur'', ''Gedebage''],
      alertLevel = ''Kritis'' \<rparr>"

section \<open>The compliance check\<close>

record governance_data =
  wasteVolume :: real
  trafficDensity :: real
  lastUpdate :: string

definition waste_incident :: "governance_data \<Rightarrow> obj" where
  "waste_incident d =
     [(''type'', Str ''Sampah''),
      (''area'', Str (targetArea WASTE_COMPLIANCE)),
      (''description'', Str (''Volume sampah melebihi batas ('' @ toFixed0 (wasteVolume d * 100)
          @ ''%) di '' @ targetArea WASTE_COMPLIANCE @ ''.'')),
      (''status'', Str ''Pelanggaran Berat''),
      (''timestamp'', ServerTimestamp)]"

definition traffic_incident :: "governance_data \<Rightarrow> obj" where
  "traffic_incident d =
     [(''type'', Str ''Lalu Lintas''),
      (''area'', Str ''Dago/Pasteur (Simulasi)''),
      (''description'', Str (''Kepadatan lalu lintas kritis ('' @ toFixed0 (trafficDensity d * 100)
          @ ''%). Perlu intervensi sinyal otomatis.'')),
      (''status'', Str (alertLevel TRAFFIC_COMPLIANCE)),
      (''timestamp'', ServerTimestamp)]"

definition checkCompliance :: "governance_data \<Rightarrow> bool \<times> obj list" where
  \<comment> \<open>the result is the pair \<^verbatim>\<open>{ isOverallCompliant, incidents }\<close>\<close>
  "checkCompliance d =
     (let waste = wasteVolume d > maxVolume WASTE_COMPLIANCE;
          traffic = trafficDensity d > maxDensity TRAFFIC_COMPLIANCE
      in (\<not> waste \<and> \<not> traffic,
          (if waste then [waste_incident d] else []) @ (if traffic then [traffic_incident d] else [])))"

definition isOverallCompliant :: "bool \<times> obj list \<Rightarrow> bool" where
  "isOverallCompliant r = fst r"

definition incidents_of :: "bool \<times> obj list \<Rightarrow> obj list" where
  "incidents_of r = snd r"

section \<open>Platform functions\<close>

text \<open>
  Two functions of the JavaScript platform decide what the feed handler computes:
  \<^verbatim>\<open>Date.prototype.toLocaleTimeString\<close>, whose output depends on the locale and the time
  zone, and the \<^verbatim>\<open>Date\<close> constructor applied to a string, whose result for strings outside
  the ISO format is left to the engine. The handlers take both as a parameter. A date
  that does not parse is \<open>None\<close> (the time value NaN).
\<close>

record platform =
  toLocaleTimeString :: "int \<Rightarrow> string"
  Date_parse :: "string \<Rightarrow> int option"

definition pad2 :: "nat \<Rightarrow> string" where
  "pad2 n = (if n < 10 then ''0'' @ digits n else digits n)"

definition time_of_day_24h :: "int \<Rightarrow> string" where
  \<comment> \<open>the 24-hour rendering \<^verbatim>\<open>HH:MM:SS\<close> of an instant, in UTC\<close>
  "time_of_day_24h ms =
     (let s = nat ((ms div 1000) mod 86400)
      in pad2 (s div 3600) @ '':'' @ pad2 (s div 60 mod 60) @ '':'' @ pad2 (s mod 60))"

definition strict_platform :: platform where
  \<comment> \<open>a 24-hour locale in UTC, and an engine whose date parser rejects a string that
      has no date part, as it rejects \<^verbatim>\<open>'N/A'\<close>\<close>
  "strict_platform = \<lparr> toLocaleTimeString = time_of_day_24h, Date_parse = (\<lambda>s. None) \<rparr>"

section \<open>The component state\<close>

record scan =
  scan_tick :: nat            \<comment> \<open>which timer tick started this call (bookkeeping only)\<close>
  newIncidents :: "obj list"  \<comment> \<open>the incidents of this call's evaluation\<close>
  remaining :: "obj list"     \<comment> \<open>the incidents the \<^verbatim>\<open>for\<close> loop has not reached yet\<close>

text \<open>
  A \<open>scan\<close> is a call of \<^verbatim>\<open>runDigitalScan\<close> suspended at its \<^verbatim>\<open>await addDoc(...)\<close>: the
  incident just before \<open>remaining\<close> is the one whose write is awaited.

  The state holds the values of the component's hooks, and three pieces of bookkeeping
  about its surroundings: the messages given to \<^verbatim>\<open>console.error\<close>, the calls of
  \<^verbatim>\<open>addDoc\<close> in the order they were made (each with the number of the tick that made
  it), and the suspended calls.
\<close>

record app =
  isAuthReady :: bool
  incidentCollectionRef :: bool   \<comment> \<open>whether the reference is non-null\<close>
  governanceData :: governance_data
  incidents :: "obj list"
  systemStatus :: string
  isSimulationRunning :: bool
  console :: "string list"
  addDoc_calls :: "(nat \<times> obj) list"
  inflight :: "scan list"
  ticks :: nat

record doc =
  doc_id :: string
  doc_data :: obj

datatype event =
    AuthReady                  \<comment> \<open>sign-in has finished and the collection reference exists\<close>
  | Timer real real string     \<comment> \<open>the interval fires; the two \<^verbatim>\<open>Math.random()\<close> draws and the clock\<close>
  | AddDocResolved nat         \<comment> \<open>the write awaited by the scan of this tick succeeded\<close>
  | AddDocRejected nat         \<comment> \<open>the write awaited by the scan of this tick failed\<close>
  | SnapshotNext "doc list"    \<comment> \<open>the live query delivers the current set of documents\<close>
  | SnapshotError              \<comment> \<open>the live query fails\<close>

section \<open>The subscription effect and its handlers\<close>

definition subscribe_effect :: "app \<Rightarrow> app" where
  "subscribe_effect st =
     (if \<not> isAuthReady st \<or> \<not> incidentCollectionRef st
      then st\<lparr>systemStatus := ''Memuat Database...''\<rparr>
      else st\<lparr>systemStatus := ''Memantau'', isSimulationRunning := True\<rparr>)"

definition App_mount :: "string \<Rightarrow> app" where
  \<comment> \<open>the first render (the \<^verbatim>\<open>useState\<close> defaults) followed by the first run of the effect;
      the argument is the clock at that moment\<close>
  "App_mount now = subscribe_effect
     \<lparr> isAuthReady = False, incidentCollectionRef = False,
       governanceData = \<lparr> wasteVolume = 0.5, trafficDensity = 0.4, lastUpdate = now \<rparr>,
       incidents = [], systemStatus = ''Initializing...'', isSimulationRunning = False,
       console = [], addDoc_calls = [], inflight = [], ticks = 0 \<rparr>"

definition spread :: "obj \<Rightarrow> obj \<Rightarrow> obj" where
  \<comment> \<open>\<^verbatim>\<open>{...base, ...src}\<close>: the properties of \<open>src\<close> are set on \<open>base\<close> one by one\<close>
  "spread src base = fold (\<lambda>(k, v). set_field k v) src base"

definition fetchedIncident :: "platform \<Rightarrow> doc \<Rightarrow> obj" where
  "fetchedIncident pf d =
     set_field ''timestamp''
       (Str (case get_field (doc_data d) ''timestamp'' of
               Some (Timestamp ms) \<Rightarrow> toLocaleTimeString pf ms
             | _ \<Rightarrow> ''N/A''))
       (spread (doc_data d) [(''id'', Str (doc_id d))])"

definition newDate :: "platform \<Rightarrow> jsval option \<Rightarrow> int option" where
  \<comment> \<open>\<^verbatim>\<open>new Date(v)\<close> as a time value; the handler only ever passes the string it has just
      stored, the other cases are not reached\<close>
  "newDate pf v = (case v of Some (Str s) \<Rightarrow> Date_parse pf s | _ \<Rightarrow> None)"

definition compareFn :: "platform \<Rightarrow> obj \<Rightarrow> obj \<Rightarrow> int option" where
  \<comment> \<open>\<^verbatim>\<open>new Date(b.timestamp) - new Date(a.timestamp)\<close>; NaN if either side is\<close>
  "compareFn pf a b =
     (case (newDate pf (get_field b ''timestamp''), newDate pf (get_field a ''timestamp'')) of
        (Some tb, Some ta) \<Rightarrow> Some (tb - ta)
      | _ \<Rightarrow> None)"

definition SortCompare :: "('a \<Rightarrow> 'a \<Rightarrow> int option) \<Rightarrow> 'a \<Rightarrow> 'a \<Rightarrow> int" where
  \<comment> \<open>the language's wrapper of a comparator: a NaN result counts as 0\<close>
  "SortCompare cmp a b = (case cmp a b of None \<Rightarrow> 0 | Some v \<Rightarrow> v)"

fun insert_by :: "('a \<Rightarrow> 'a \<Rightarrow> int option) \<Rightarrow> 'a \<Rightarrow> 'a list \<Rightarrow> 'a list" where
  "insert_by cmp x [] = [x]"
| "insert_by cmp x (y # ys) =
     (if SortCompare cmp x y \<le> 0 then x # y # ys else y # insert_by cmp x ys)"

definition array_sort :: "('a \<Rightarrow> 'a \<Rightarrow> int option) \<Rightarrow> 'a list \<Rightarrow> 'a list" where
  \<comment> \<open>\<^verbatim>\<open>Array.prototype.sort\<close> with a comparator. The language requires a stable sort;
      this is the stable insertion sort, each element entering before the later elements
      it does not compare greater than.\<close>
  "array_sort cmp xs = foldr (insert_by cmp) xs []"

definition onSnapshot_next :: "platform \<Rightarrow> doc list \<Rightarrow> app \<Rightarrow> app" where
  "onSnapshot_next pf docs st =
     st\<lparr>incidents := array_sort (compareFn pf) (map (fetchedIncident pf) docs)\<rparr>"

definition onSnapshot_error :: "app \<Rightarrow> app" where
  "onSnapshot_error st =
     st\<lparr>console := console st @ [''Error fetching incidents:''], systemStatus := ''DB Error''\<rparr>"

section \<open>The scan\<close>

definition incidentToSave :: "obj \<Rightarrow> obj" where
  \<comment> \<open>\<^verbatim>\<open>const { timestamp: clientTimestamp, ...incidentToSave } = incident\<close>\<close>
  "incidentToSave incident = filter (\<lambda>(k, v). k \<noteq> ''timestamp'') incident"

definition for_loop :: "nat \<Rightarrow> obj list \<Rightarrow> obj list \<Rightarrow> app \<Rightarrow> app" where
  \<comment> \<open>the \<^verbatim>\<open>for\<close> loop entered with the incidents \<open>todo\<close> still to visit: with none left
      the call returns; otherwise \<^verbatim>\<open>addDoc\<close> is called for the first and the call is
      suspended until that write settles\<close>
  "for_loop n newInc todo st =
     (case todo of
        [] \<Rightarrow> st
      | incident # rest \<Rightarrow>
          st\<lparr>addDoc_calls := addDoc_calls st @ [(n, incidentToSave incident)],
             inflight := inflight st @ [\<lparr>scan_tick = n, newIncidents = newInc, remaining = rest\<rparr>]\<rparr>)"

definition next_data :: "real \<Rightarrow> real \<Rightarrow> string \<Rightarrow> governance_data \<Rightarrow> governance_data" where
  "next_data r1 r2 now g =
     \<lparr> wasteVolume = min 1.0 (wasteVolume g + (r1 * 0.2 - 0.08)),
       trafficDensity = min 1.0 (trafficDensity g + (r2 * 0.3 - 0.15)),
       lastUpdate = now \<rparr>"

definition runDigitalScan :: "real \<Rightarrow> real \<Rightarrow> string \<Rightarrow> app \<Rightarrow> app" where
  \<comment> \<open>the call up to its first \<^verbatim>\<open>await\<close>, or to its end if it awaits nothing\<close>
  "runDigitalScan r1 r2 now st =
     (if \<not> isSimulationRunning st \<or> \<not> incidentCollectionRef st then st
      else
        let newData = next_data r1 r2 now (governanceData st);
            newInc = incidents_of (checkCompliance newData);
            st1 = st\<lparr>governanceData := newData, ticks := Suc (ticks st)\<rparr>
        in if length newInc > 0
           then for_loop (ticks st) newInc newInc (st1\<lparr>systemStatus := ''Insiden Terdeteksi''\<rparr>)
           else st1\<lparr>systemStatus := ''Komplian Penuh''\<rparr>)"

definition addDoc_resolved :: "nat \<Rightarrow> app \<Rightarrow> app" where
  \<comment> \<open>the awaited write of tick \<open>n\<close> succeeded: its call resumes the loop\<close>
  "addDoc_resolved n st =
     (case filter (\<lambda>s. scan_tick s = n) (inflight st) of
        [] \<Rightarrow> st
      | s # _ \<Rightarrow> for_loop n (newIncidents s) (remaining s)
                  (st\<lparr>inflight := filter (\<lambda>s. scan_tick s \<noteq> n) (inflight st)\<rparr>))"

definition addDoc_rejected :: "nat \<Rightarrow> app \<Rightarrow> app" where
  \<comment> \<open>the awaited write of tick \<open>n\<close> failed: the \<^verbatim>\<open>catch\<close> block logs and the call ends\<close>
  "addDoc_rejected n st =
     (case filter (\<lambda>s. scan_tick s = n) (inflight st) of
        [] \<Rightarrow> st
      | s # _ \<Rightarrow> st\<lparr>inflight := filter (\<lambda>s. scan_tick s \<noteq> n) (inflight st),
                    console := console st @ [''Failed to log incident to Firestore:'']\<rparr>)"

section \<open>The event loop\<close>

fun step :: "platform \<Rightarrow> event \<Rightarrow> app \<Rightarrow> app" where
  "step pf AuthReady st = subscribe_effect (st\<lparr>isAuthReady := True, incidentCollectionRef := True\<rparr>)"
| "step pf (Timer r1 r2 now) st =
     (if isSimulationRunning st \<and> isAuthReady st then runDigitalScan r1 r2 now st else st)"
| "step pf (AddDocResolved n) st = addDoc_resolved n st"
| "step pf (AddDocRejected n) st = addDoc_rejected n st"
| "step pf (SnapshotNext docs) st =
     (if isAuthReady st \<and> incidentCollectionRef st then onSnapshot_next pf docs st else st)"
| "step pf SnapshotError st =
     (if isAuthReady st \<and> incidentCollectionRef st then onSnapshot_error st else st)"

definition run :: "platform \<Rightarrow> event list \<Rightarrow> app \<Rightarrow> app" where
  \<comment> \<open>the events are handled one at a time, to completion, in the order they arrive\<close>
  "run pf evs st = fold (step pf) evs st"

section \<open>Predicates used to state the properties\<close>

definition carries_observedAt :: "governance_data \<Rightarrow> obj \<Rightarrow> bool" where
  \<comment> \<open>the draft has a time field holding the time of the snapshot it was made from\<close>
  "carries_observedAt d i =
     (get_field i ''observedAt'' = Some (Str (lastUpdate d))
      \<or> get_field i ''timestamp'' = Some (Str (lastUpdate d)))"

definition appends_serialized :: "(nat \<times> obj) list \<Rightarrow> bool" where
  \<comment> \<open>the writes of each tick form one uninterrupted block of the sequence of writes\<close>
  "appends_serialized calls = distinct (remdups_adj (map fst calls))"

definition calls_of :: "nat \<Rightarrow> (nat \<times> obj) list \<Rightarrow> obj list" where
  \<comment> \<open>the writes made by tick \<open>n\<close>, in order\<close>
  "calls_of n calls = map snd (filter (\<lambda>c. fst c = n) calls)"

definition scans_consistent :: "app \<Rightarrow> bool" where
  \<comment> \<open>the suspended scans belong to different ticks that have started, and the writes a
      scan has made, followed by the incidents it has not reached, are its incidents\<close>
  "scans_consistent st =
     (distinct (map scan_tick (inflight st))
      \<and> list_all (\<lambda>s. scan_tick s < ticks st
            \<and> calls_of (scan_tick s) (addDoc_calls st) @ map incidentToSave (remaining s)
                = map incidentToSave (newIncidents s)) (inflight st)
      \<and> list_all (\<lambda>c. fst c < ticks st) (addDoc_calls st))"

definition saved_fields :: "string list" where
  "saved_fields = [''type'', ''area'', ''description'', ''status'']"

definition saves_without_timestamp :: "app \<Rightarrow> bool" where
  \<comment> \<open>every write made, and every write a suspended scan will make, has the four fields\<close>
  "saves_without_timestamp st =
     (list_all (\<lambda>c. keys (snd c) = saved_fields) (addDoc_calls st)
      \<and> list_all (\<lambda>s. list_all (\<lambda>i. keys (incidentToSave i) = saved_fields) (remaining s)) (inflight st))"

definition scanning :: "app \<Rightarrow> bool" where
  \<comment> \<open>the conditions under which the interval exists and a scan does not return at once\<close>
  "scanning st = (isSimulationRunning st \<and> isAuthReady st \<and> incidentCollectionRef st)"

definition tick_over :: "nat \<Rightarrow> app \<Rightarrow> bool" where
  \<comment> \<open>tick \<open>n\<close> has started and its scan is no longer suspended\<close>
  "tick_over n st = (n < ticks st \<and> n \<notin> scan_tick ` set (inflight st))"

section \<open>Example inputs\<close>

definition overlapping_ticks :: "event list" where
  \<comment> \<open>four ticks with high draws and no write settling in between, then the first write
      of the third tick settles\<close>
  "overlapping_ticks =
     [AuthReady, Timer 0.99 0.99 ''10:00:00'', Timer 0.99 0.99 ''10:00:04'',
      Timer 0.99 0.99 ''10:00:08'', Timer 0.99 0.99 ''10:00:12'', AddDocResolved 2]"

definition delivered_older_first :: "doc list" where
  \<comment> \<open>two documents a day apart, the older one delivered first\<close>
  "delivered_older_first =
     [\<lparr> doc_id = ''a'', doc_data = [(''type'', Str ''Sampah''), (''timestamp'', Timestamp 1700000000000)] \<rparr>,
      \<lparr> doc_id = ''b'', doc_data = [(''type'', Str ''Lalu Lintas''), (''timestamp'', Timestamp 1700086400000)] \<rparr>]"

section \<open>Properties of the compliance check\<close>

lemmas rules_defs = WASTE_COMPLIANCE_def TRAFFIC_COMPLIANCE_def

lemma incidents_of_checkCompliance:
  "incidents_of (checkCompliance d) =
     (if 0.8 < wasteVolume d then [waste_incident d] else [])
     @ (if 0.75 < trafficDensity d then [traffic_incident d] else [])"
  by (simp add: checkCompliance_def incidents_of_def rules_defs Let_def)

text \<open>
  C7. A snapshot whose waste volume is at most 0.8 and whose traffic density is at most
  0.75 is compliant and produces no incident; the limits themselves are included, since
  both tests are strict.
\<close>

theorem checkCompliance_within_limits:
  assumes "wasteVolume d \<le> 0.8" and "trafficDensity d \<le> 0.75"
  shows "isOverallCompliant (checkCompliance d) = True \<and> incidents_of (checkCompliance d) = []"
  using assms by (simp add: checkCompliance_def isOverallCompliant_def incidents_of_def rules_defs)

theorem checkCompliance_within_limits_witness:
  "wasteVolume \<lparr>wasteVolume = 0.8, trafficDensity = 0.75, lastUpdate = ''10:00:00''\<rparr> \<le> 0.8
   \<and> trafficDensity \<lparr>wasteVolume = 0.8, trafficDensity = 0.75, lastUpdate = ''10:00:00''\<rparr> \<le> 0.75
   \<and> isOverallCompliant (checkCompliance \<lparr>wasteVolume = 0.8, trafficDensity = 0.75, lastUpdate = ''10:00:00''\<rparr>) = True
   \<and> incidents_of (checkCompliance \<lparr>wasteVolume = 0.8, trafficDensity = 0.75, lastUpdate = ''10:00:00''\<rparr>) = []"
  using checkCompliance_within_limits [of "\<lparr>wasteVolume = 0.8, trafficDensity = 0.75, lastUpdate = ''10:00:00''\<rparr>"]
  by simp

text \<open>
  C8. With a waste volume of 0.81 and the traffic density within its limit the check
  returns exactly one incident, that of the waste rule (its type label in the program is
  \<^verbatim>\<open>'Sampah'\<close>, "waste"), and the description contains the digits 81.
\<close>

theorem waste_81_one_draft:
  assumes "wasteVolume d = 0.81" and "trafficDensity d \<le> 0.75"
  shows "\<exists>i. incidents_of (checkCompliance d) = [i]
           \<and> get_field i ''type'' = Some (Str ''Sampah'')
           \<and> get_field i ''description'' = Some (Str ''Volume sampah melebihi batas (81%) di Cihampelas.'')
           \<and> (\<exists>pre post. get_field i ''description'' = Some (Str (pre @ ''81'' @ post)))"
proof -
  have inc: "incidents_of (checkCompliance d) = [waste_incident d]"
    using assms by (simp add: checkCompliance_def incidents_of_def rules_defs)
  have ty: "get_field (waste_incident d) ''type'' = Some (Str ''Sampah'')"
    by (simp add: waste_incident_def get_field_def)
  have de: "get_field (waste_incident d) ''description''
              = Some (Str ''Volume sampah melebihi batas (81%) di Cihampelas.'')"
    using assms(1) by (simp add: waste_incident_def get_field_def toFixed0_def rules_defs)
  have "''Volume sampah melebihi batas (81%) di Cihampelas.''
          = ''Volume sampah melebihi batas ('' @ ''81'' @ ''%) di Cihampelas.''"
    by simp
  with de have "\<exists>pre post. get_field (waste_incident d) ''description'' = Some (Str (pre @ ''81'' @ post))"
    by metis
  with inc ty de show ?thesis by blast
qed

theorem waste_81_one_draft_witness:
  "wasteVolume \<lparr>wasteVolume = 0.81, trafficDensity = 0.4, lastUpdate = ''10:00:00''\<rparr> = 0.81
   \<and> trafficDensity \<lparr>wasteVolume = 0.81, trafficDensity = 0.4, lastUpdate = ''10:00:00''\<rparr> \<le> 0.75
   \<and> (\<exists>i. incidents_of (checkCompliance \<lparr>wasteVolume = 0.81, trafficDensity = 0.4, lastUpdate = ''10:00:00''\<rparr>) = [i]
           \<and> get_field i ''type'' = Some (Str ''Sampah'')
           \<and> get_field i ''description'' = Some (Str ''Volume sampah melebihi batas (81%) di Cihampelas.'')
           \<and> (\<exists>pre post. get_field i ''description'' = Some (Str (pre @ ''81'' @ post))))"
  using waste_81_one_draft [of "\<lparr>wasteVolume = 0.81, trafficDensity = 0.4, lastUpdate = ''10:00:00''\<rparr>"]
  by simp

text \<open>
  C6, as stated, fails: a draft has no field with the time of the snapshot. The check never
  reads \<^verbatim>\<open>lastUpdate\<close>; the only time field of a draft is \<^verbatim>\<open>timestamp\<close>, and it holds the
  placeholder of \<^verbatim>\<open>serverTimestamp()\<close>.
\<close>

theorem draft_observedAt_counterexample:
  "incidents_of (checkCompliance \<lparr>wasteVolume = 0.9, trafficDensity = 0.5, lastUpdate = ''10:00:00''\<rparr>)
     = [waste_incident \<lparr>wasteVolume = 0.9, trafficDensity = 0.5, lastUpdate = ''10:00:00''\<rparr>]
   \<and> \<not> carries_observedAt \<lparr>wasteVolume = 0.9, trafficDensity = 0.5, lastUpdate = ''10:00:00''\<rparr>
         (waste_incident \<lparr>wasteVolume = 0.9, trafficDensity = 0.5, lastUpdate = ''10:00:00''\<rparr>)"
  by (simp add: checkCompliance_def incidents_of_def rules_defs carries_observedAt_def
        waste_incident_def get_field_def)

text \<open>
  C6, amended. Every draft carries the \<^verbatim>\<open>serverTimestamp()\<close> placeholder as its
  \<^verbatim>\<open>timestamp\<close> and no \<^verbatim>\<open>observedAt\<close>, and the drafts do not depend on the snapshot's
  \<^verbatim>\<open>lastUpdate\<close>. The draft of the waste rule has the description of the waste template
  with the waste volume as a rounded percentage and the status \<^verbatim>\<open>'Pelanggaran Berat'\<close>;
  the draft of the traffic rule has the description of the traffic template with the
  traffic density as a rounded percentage and the rule's \<^verbatim>\<open>alertLevel\<close> as its status.
\<close>

theorem draft_fields:
  assumes "i \<in> set (incidents_of (checkCompliance d))"
  shows "get_field i ''timestamp'' = Some ServerTimestamp
         \<and> get_field i ''observedAt'' = None
         \<and> incidents_of (checkCompliance (d\<lparr>lastUpdate := t\<rparr>)) = incidents_of (checkCompliance d)
         \<and> ((wasteVolume d > 0.8
              \<and> get_field i ''type'' = Some (Str ''Sampah'')
              \<and> get_field i ''description'' = Some (Str (''Volume sampah melebihi batas (''
                    @ toFixed0 (wasteVolume d * 100) @ ''%) di Cihampelas.''))
              \<and> get_field i ''status'' = Some (Str ''Pelanggaran Berat''))
            \<or> (trafficDensity d > 0.75
              \<and> get_field i ''type'' = Some (Str ''Lalu Lintas'')
              \<and> get_field i ''description'' = Some (Str (''Kepadatan lalu lintas kritis (''
                    @ toFixed0 (trafficDensity d * 100) @ ''%). Perlu intervensi sinyal otomatis.''))
              \<and> get_field i ''status'' = Some (Str (alertLevel TRAFFIC_COMPLIANCE))))"
proof -
  have indep: "incidents_of (checkCompliance (d\<lparr>lastUpdate := t\<rparr>)) = incidents_of (checkCompliance d)"
    by (simp add: incidents_of_checkCompliance waste_incident_def traffic_incident_def)
  from assms consider
      (waste) "wasteVolume d > 0.8" "i = waste_incident d"
    | (traffic) "trafficDensity d > 0.75" "i = traffic_incident d"
    by (auto simp: incidents_of_checkCompliance split: if_splits)
  then show ?thesis
  proof cases
    case waste
    then show ?thesis using indep
      by (simp add: waste_incident_def get_field_def rules_defs)
  next
    case traffic
    then show ?thesis using indep
      by (simp add: traffic_incident_def get_field_def rules_defs)
  qed
qed

theorem draft_fields_witness:
  "traffic_incident \<lparr>wasteVolume = 0.5, trafficDensity = 0.9, lastUpdate = ''10:00:00''\<rparr>
     \<in> set (incidents_of (checkCompliance \<lparr>wasteVolume = 0.5, trafficDensity = 0.9, lastUpdate = ''10:00:00''\<rparr>))
   \<and> get_field (traffic_incident \<lparr>wasteVolume = 0.5, trafficDensity = 0.9, lastUpdate = ''10:00:00''\<rparr>) ''timestamp''
       = Some ServerTimestamp
   \<and> get_field (traffic_incident \<lparr>wasteVolume = 0.5, trafficDensity = 0.9, lastUpdate = ''10:00:00''\<rparr>) ''description''
       = Some (Str ''Kepadatan lalu lintas kritis (90%). Perlu intervensi sinyal otomatis.'')
   \<and> get_field (traffic_incident \<lparr>wasteVolume = 0.5, trafficDensity = 0.9, lastUpdate = ''10:00:00''\<rparr>) ''status''
       = Some (Str ''Kritis'')"
proof -
  let ?d = "\<lparr>wasteVolume = 0.5, trafficDensity = 0.9, lastUpdate = ''10:00:00''\<rparr>"
  have mem: "traffic_incident ?d \<in> set (incidents_of (checkCompliance ?d))"
    by (simp add: checkCompliance_def incidents_of_def rules_defs)
  from draft_fields [OF mem, of "''11:00:00''"] mem show ?thesis
    by (simp add: toFixed0_def rules_defs)
qed

section \<open>Properties of the handlers\<close>

lemma for_loop_fields [simp]:
  "systemStatus (for_loop n a todo st) = systemStatus st"
  "governanceData (for_loop n a todo st) = governanceData st"
  "incidents (for_loop n a todo st) = incidents st"
  "isSimulationRunning (for_loop n a todo st) = isSimulationRunning st"
  "isAuthReady (for_loop n a todo st) = isAuthReady st"
  "incidentCollectionRef (for_loop n a todo st) = incidentCollectionRef st"
  "console (for_loop n a todo st) = console st"
  "ticks (for_loop n a todo st) = ticks st"
  by (simp_all add: for_loop_def split: list.split)

lemma addDoc_resolved_fields [simp]:
  "systemStatus (addDoc_resolved n st) = systemStatus st"
  "governanceData (addDoc_resolved n st) = governanceData st"
  "incidents (addDoc_resolved n st) = incidents st"
  "isSimulationRunning (addDoc_resolved n st) = isSimulationRunning st"
  "isAuthReady (addDoc_resolved n st) = isAuthReady st"
  "incidentCollectionRef (addDoc_resolved n st) = incidentCollectionRef st"
  "console (addDoc_resolved n st) = console st"
  "ticks (addDoc_resolved n st) = ticks st"
  by (simp_all add: addDoc_resolved_def split: list.split)

lemma addDoc_rejected_fields [simp]:
  "systemStatus (addDoc_rejected n st) = systemStatus st"
  "governanceData (addDoc_rejected n st) = governanceData st"
  "incidents (addDoc_rejected n st) = incidents st"
  "isSimulationRunning (addDoc_rejected n st) = isSimulationRunning st"
  "isAuthReady (addDoc_rejected n st) = isAuthReady st"
  "incidentCollectionRef (addDoc_rejected n st) = incidentCollectionRef st"
  "addDoc_calls (addDoc_rejected n st) = addDoc_calls st"
  "ticks (addDoc_rejected n st) = ticks st"
  by (simp_all add: addDoc_rejected_def split: list.split)

lemma onSnapshot_fields [simp]:
  "systemStatus (onSnapshot_next pf docs st) = systemStatus st"
  "governanceData (onSnapshot_next pf docs st) = governanceData st"
  "isSimulationRunning (onSnapshot_next pf docs st) = isSimulationRunning st"
  "isAuthReady (onSnapshot_next pf docs st) = isAuthReady st"
  "incidentCollectionRef (onSnapshot_next pf docs st) = incidentCollectionRef st"
  "addDoc_calls (onSnapshot_next pf docs st) = addDoc_calls st"
  "inflight (onSnapshot_next pf docs st) = inflight st"
  "ticks (onSnapshot_next pf docs st) = ticks st"
  "console (onSnapshot_next pf docs st) = console st"
  "governanceData (onSnapshot_error st) = governanceData st"
  "isSimulationRunning (onSnapshot_error st) = isSimulationRunning st"
  "isAuthReady (onSnapshot_error st) = isAuthReady st"
  "incidentCollectionRef (onSnapshot_error st) = incidentCollectionRef st"
  "addDoc_calls (onSnapshot_error st) = addDoc_calls st"
  "inflight (onSnapshot_error st) = inflight st"
  "ticks (onSnapshot_error st) = ticks st"
  by (simp_all add: onSnapshot_next_def onSnapshot_error_def)

lemma runDigitalScan_running:
  assumes "isSimulationRunning st" and "incidentCollectionRef st"
  shows "governanceData (runDigitalScan r1 r2 now st) = next_data r1 r2 now (governanceData st)"
    and "systemStatus (runDigitalScan r1 r2 now st) =
           (if incidents_of (checkCompliance (next_data r1 r2 now (governanceData st))) = []
            then ''Komplian Penuh'' else ''Insiden Terdeteksi'')"
    and "ticks (runDigitalScan r1 r2 now st) = Suc (ticks st)"
    and "addDoc_calls (runDigitalScan r1 r2 now st) =
           addDoc_calls st @
           (case incidents_of (checkCompliance (next_data r1 r2 now (governanceData st))) of
              [] \<Rightarrow> [] | i # rest \<Rightarrow> [(ticks st, incidentToSave i)])"
  using assms by (simp_all add: runDigitalScan_def Let_def for_loop_def split: list.split)

lemma run_induct:
  assumes "P st" and "\<And>e s. P s \<Longrightarrow> P (step pf e s)"
  shows "P (run pf evs st)"
  using assms(1) unfolding run_def
  by (induction evs arbitrary: st) (simp_all add: assms(2))

section \<open>The simulator\<close>

lemma fields_at_most_one:
  "wasteVolume (governanceData (run pf evs (App_mount t0))) \<le> 1
   \<and> trafficDensity (governanceData (run pf evs (App_mount t0))) \<le> 1"
proof (rule run_induct [where P = "\<lambda>st. wasteVolume (governanceData st) \<le> 1
                                      \<and> trafficDensity (governanceData st) \<le> 1"])
  show "wasteVolume (governanceData (App_mount t0)) \<le> 1
        \<and> trafficDensity (governanceData (App_mount t0)) \<le> 1"
    by (simp add: App_mount_def subscribe_effect_def)
next
  fix e and s :: app
  assume "wasteVolume (governanceData s) \<le> 1 \<and> trafficDensity (governanceData s) \<le> 1"
  then show "wasteVolume (governanceData (step pf e s)) \<le> 1
             \<and> trafficDensity (governanceData (step pf e s)) \<le> 1"
    by (cases e) (simp_all add: subscribe_effect_def runDigitalScan_def Let_def next_data_def)
qed

text \<open>
  C2. The simulator bounds a field from above only (\<^verbatim>\<open>Math.min(1.0, ...)\<close>): from the
  initial snapshot, four ticks whose traffic draw is 0.1 take the traffic density from
  0.4 to -0.08, below 0.
\<close>

theorem traffic_below_zero:
  "trafficDensity (governanceData (run strict_platform
      [AuthReady, Timer 0.5 0.1 ''10:00:00'', Timer 0.5 0.1 ''10:00:04'',
       Timer 0.5 0.1 ''10:00:08'', Timer 0.5 0.1 ''10:00:12''] (App_mount ''09:59:56''))) = - 0.08
   \<and> \<not> (0 \<le> trafficDensity (governanceData (run strict_platform
      [AuthReady, Timer 0.5 0.1 ''10:00:00'', Timer 0.5 0.1 ''10:00:04'',
       Timer 0.5 0.1 ''10:00:08'', Timer 0.5 0.1 ''10:00:12''] (App_mount ''09:59:56''))))"
  by (simp add: run_def App_mount_def subscribe_effect_def runDigitalScan_def
        next_data_def checkCompliance_def incidents_of_def rules_defs)

section \<open>Subscription errors\<close>

text \<open>
  C9. The error callback of the subscription sets the status to \<^verbatim>\<open>'DB Error'\<close> and leaves
  the incident list as it was: besides the status only the console log changes.
\<close>

theorem subscription_error_keeps_feed:
  "systemStatus (onSnapshot_error st) = ''DB Error''
   \<and> incidents (onSnapshot_error st) = incidents st
   \<and> incidents (step pf SnapshotError st) = incidents st
   \<and> onSnapshot_error st = st\<lparr>console := console st @ [''Error fetching incidents:''], systemStatus := ''DB Error''\<rparr>"
  by (simp add: onSnapshot_error_def)

text \<open>
  C5, as stated, fails: after a subscription error the status is \<^verbatim>\<open>'DB Error'\<close>, and the
  next tick of the timer replaces it (here by \<^verbatim>\<open>'Komplian Penuh'\<close>) although nothing has
  repaired the subscription.
\<close>

theorem status_error_overwritten_counterexample:
  "systemStatus (run strict_platform [AuthReady, SnapshotError] (App_mount ''09:59:56'')) = ''DB Error''
   \<and> systemStatus (run strict_platform [AuthReady, SnapshotError, Timer 0.5 0.5 ''10:00:00'']
        (App_mount ''09:59:56'')) = ''Komplian Penuh''
   \<and> ''Komplian Penuh'' \<noteq> ''DB Error''"
  by (simp add: run_def App_mount_def subscribe_effect_def onSnapshot_error_def runDigitalScan_def
        next_data_def checkCompliance_def incidents_of_def rules_defs)

text \<open>
  C5, amended. A subscription error sets the status to \<^verbatim>\<open>'DB Error'\<close>. The settling of a
  write and a delivery of the feed leave that status in place; the next tick of the timer
  replaces it, by \<^verbatim>\<open>'Komplian Penuh'\<close> when its evaluation finds no incident and by
  \<^verbatim>\<open>'Insiden Terdeteksi'\<close> otherwise.
\<close>

theorem status_after_error:
  assumes "isSimulationRunning st" and "isAuthReady st" and "incidentCollectionRef st"
  shows "systemStatus (step pf SnapshotError st) = ''DB Error''
    \<and> systemStatus (step pf (AddDocResolved n) (step pf SnapshotError st)) = ''DB Error''
    \<and> systemStatus (step pf (AddDocRejected n) (step pf SnapshotError st)) = ''DB Error''
    \<and> systemStatus (step pf (SnapshotNext docs) (step pf SnapshotError st)) = ''DB Error''
    \<and> systemStatus (step pf (Timer r1 r2 now) (step pf SnapshotError st)) =
         (if incidents_of (checkCompliance (next_data r1 r2 now (governanceData st))) = []
          then ''Komplian Penuh'' else ''Insiden Terdeteksi'')"
proof -
  let ?e = "step pf SnapshotError st"
  have e: "?e = onSnapshot_error st" using assms by simp
  have s: "systemStatus ?e = ''DB Error''" unfolding e by (simp add: onSnapshot_error_def)
  have t: "systemStatus (step pf (Timer r1 r2 now) ?e) =
         (if incidents_of (checkCompliance (next_data r1 r2 now (governanceData st))) = []
          then ''Komplian Penuh'' else ''Insiden Terdeteksi'')"
    unfolding e using assms runDigitalScan_running(2) [of "onSnapshot_error st" r1 r2 now]
    by simp
  have r: "systemStatus (step pf (AddDocResolved n) ?e) = ''DB Error''"
    unfolding e by (simp add: onSnapshot_error_def)
  have j: "systemStatus (step pf (AddDocRejected n) ?e) = ''DB Error''"
    unfolding e by (simp add: onSnapshot_error_def)
  have d: "systemStatus (step pf (SnapshotNext docs) ?e) = ''DB Error''"
    unfolding e by (simp add: onSnapshot_error_def)
  from s r j d t show ?thesis by blast
qed

theorem status_after_error_witness:
  "isSimulationRunning (run strict_platform [AuthReady] (App_mount ''09:59:56''))
   \<and> isAuthReady (run strict_platform [AuthReady] (App_mount ''09:59:56''))
   \<and> incidentCollectionRef (run strict_platform [AuthReady] (App_mount ''09:59:56''))
   \<and> systemStatus (step strict_platform SnapshotError
        (run strict_platform [AuthReady] (App_mount ''09:59:56''))) = ''DB Error''
   \<and> systemStatus (step strict_platform (Timer 0.5 0.5 ''10:00:00'') (step strict_platform SnapshotError
        (run strict_platform [AuthReady] (App_mount ''09:59:56'')))) = ''Komplian Penuh''"
proof -
  let ?st = "run strict_platform [AuthReady] (App_mount ''09:59:56'')"
  have h: "isSimulationRunning ?st" "isAuthReady ?st" "incidentCollectionRef ?st"
    by (simp_all add: run_def App_mount_def subscribe_effect_def)
  have g: "governanceData ?st = \<lparr>wasteVolume = 0.5, trafficDensity = 0.4, lastUpdate = ''09:59:56''\<rparr>"
    by (simp add: run_def App_mount_def subscribe_effect_def)
  from status_after_error [OF h, of strict_platform 0 "[]" "0.5" "0.5" "''10:00:00''"] h
  show ?thesis
    by (simp add: g next_data_def incidents_of_checkCompliance)
qed

section \<open>The feed\<close>

lemma array_sort_unordered:
  assumes "\<And>a b. SortCompare cmp a b = 0"
  shows "array_sort cmp xs = xs"
proof -
  have ins: "insert_by cmp x ys = x # ys" for x ys
    by (cases ys) (simp_all add: assms)
  show ?thesis unfolding array_sort_def
    by (induction xs) (simp_all add: ins)
qed

lemma feed_in_delivery_order_when_unparsed:
  assumes "\<And>s. Date_parse pf s = None"
  shows "incidents (onSnapshot_next pf docs st) = map (fetchedIncident pf) docs"
proof -
  have "SortCompare (compareFn pf) a b = 0" for a b
    by (simp add: SortCompare_def compareFn_def newDate_def assms split: option.split jsval.split)
  then show ?thesis
    by (simp add: onSnapshot_next_def array_sort_unordered)
qed

lemma fetchedIncident_timestamp:
  "get_field (fetchedIncident pf d) ''timestamp'' =
     Some (Str (case get_field (doc_data d) ''timestamp'' of
               Some (Timestamp ms) \<Rightarrow> toLocaleTimeString pf ms
             | _ \<Rightarrow> ''N/A''))"
proof -
  have upd: "map_of (map (\<lambda>(k', v'). if k' = k then (k', v) else (k', v')) ob) k
               = (if k \<in> fst ` set ob then Some v else None)" for k v and ob :: obj
    by (induction ob) auto
  have app: "k \<notin> fst ` set ob \<Longrightarrow> map_of (ob @ [(k, v)]) k = Some v" for k v and ob :: obj
    by (induction ob) auto
  have "map_of (set_field k v ob) k = Some v" for k v and ob :: obj
    using upd [of k v ob] app [of k ob v] by (simp add: set_field_def)
  then show ?thesis by (simp add: fetchedIncident_def get_field_def)
qed

lemma feed_same_clock_time_keeps_order:
  assumes "get_field (doc_data d1) ''timestamp'' = Some (Timestamp t1)"
    and "get_field (doc_data d2) ''timestamp'' = Some (Timestamp t2)"
    and "toLocaleTimeString pf t1 = toLocaleTimeString pf t2"
  shows "incidents (onSnapshot_next pf [d1, d2] st) = [fetchedIncident pf d1, fetchedIncident pf d2]"
proof -
  have "SortCompare (compareFn pf) (fetchedIncident pf d1) (fetchedIncident pf d2) = 0"
    by (simp add: SortCompare_def compareFn_def newDate_def fetchedIncident_timestamp assms
          split: option.split)
  then show ?thesis
    by (simp add: onSnapshot_next_def array_sort_def)
qed

lemma clock_1700000000000: "time_of_day_24h 1700000000000 = ''22:13:20''"
  by (simp add: time_of_day_24h_def pad2_def)

lemma clock_1700086400000: "time_of_day_24h 1700086400000 = ''22:13:20''"
  by (simp add: time_of_day_24h_def pad2_def)

text \<open>
  C1. The handler replaces each stored timestamp by its time-of-day string before it
  sorts, and the comparator builds dates from those strings. Two documents stored a day
  apart, delivered older first, get the same string, compare as equal, and the stable
  sort leaves them as delivered: the feed has the older document first.
\<close>

theorem feed_keeps_delivery_order:
  "map (\<lambda>d. (doc_id d, get_field (doc_data d) ''timestamp'')) delivered_older_first
     = [(''a'', Some (Timestamp 1700000000000)), (''b'', Some (Timestamp 1700086400000))]
   \<and> map (\<lambda>i. (get_field i ''id'', get_field i ''timestamp''))
       (incidents (run strict_platform [AuthReady, SnapshotNext delivered_older_first] (App_mount ''09:59:56'')))
     = [(Some (Str ''a''), Some (Str ''22:13:20'')), (Some (Str ''b''), Some (Str ''22:13:20''))]"
proof -
  let ?a = "\<lparr> doc_id = ''a'', doc_data = [(''type'', Str ''Sampah''), (''timestamp'', Timestamp 1700000000000)] \<rparr>"
  let ?b = "\<lparr> doc_id = ''b'', doc_data = [(''type'', Str ''Lalu Lintas''), (''timestamp'', Timestamp 1700086400000)] \<rparr>"
  let ?st = "run strict_platform [AuthReady] (App_mount ''09:59:56'')"
  have docs: "delivered_older_first = [?a, ?b]" by (simp add: delivered_older_first_def)
  have ta: "get_field (doc_data ?a) ''timestamp'' = Some (Timestamp 1700000000000)"
    and tb: "get_field (doc_data ?b) ''timestamp'' = Some (Timestamp 1700086400000)"
    by (simp_all add: get_field_def)
  have clock: "toLocaleTimeString strict_platform 1700000000000 = ''22:13:20''"
     "toLocaleTimeString strict_platform 1700086400000 = ''22:13:20''"
    by (simp_all add: strict_platform_def clock_1700000000000 clock_1700086400000)
  have ready: "isAuthReady ?st \<and> incidentCollectionRef ?st"
    by (simp add: run_def App_mount_def subscribe_effect_def)
  have "run strict_platform [AuthReady, SnapshotNext delivered_older_first] (App_mount ''09:59:56'')
          = step strict_platform (SnapshotNext [?a, ?b]) ?st"
    by (simp add: run_def docs)
  also have "\<dots> = onSnapshot_next strict_platform [?a, ?b] ?st"
    using ready by simp
  finally have feed: "incidents (run strict_platform [AuthReady, SnapshotNext delivered_older_first] (App_mount ''09:59:56''))
      = [fetchedIncident strict_platform ?a, fetchedIncident strict_platform ?b]"
    using feed_same_clock_time_keeps_order [OF ta tb, of strict_platform ?st] clock by simp
  have ids: "get_field (fetchedIncident strict_platform ?a) ''id'' = Some (Str ''a'')"
     "get_field (fetchedIncident strict_platform ?b) ''id'' = Some (Str ''b'')"
    by (simp_all add: fetchedIncident_def spread_def set_field_def get_field_def)
  have ts: "get_field (fetchedIncident strict_platform ?a) ''timestamp'' = Some (Str ''22:13:20'')"
     "get_field (fetchedIncident strict_platform ?b) ''timestamp'' = Some (Str ''22:13:20'')"
    by (simp_all add: fetchedIncident_timestamp ta tb clock del: doc.simps)
  show ?thesis
    unfolding feed using ids ts by (simp add: docs get_field_def)
qed

section \<open>Writes of suspended scans\<close>

lemma calls_of_append [simp]:
  "calls_of n (xs @ ys) = calls_of n xs @ calls_of n ys"
  by (simp add: calls_of_def)

lemma calls_of_fresh:
  assumes "list_all (\<lambda>c. fst c < m) calls" and "m \<le> n"
  shows "calls_of n calls = []"
  using assms by (induction calls) (auto simp: calls_of_def)

lemma for_loop_consistent:
  assumes inv: "scans_consistent st"
    and n: "n < ticks st"
    and fresh: "n \<notin> scan_tick ` set (inflight st)"
    and eq: "calls_of n (addDoc_calls st) @ map incidentToSave todo = map incidentToSave newInc"
  shows "scans_consistent (for_loop n newInc todo st)"
proof (cases todo)
  case Nil
  then show ?thesis using inv by (simp add: for_loop_def)
next
  case (Cons i rest)
  have old: "\<And>s. s \<in> set (inflight st) \<Longrightarrow> scan_tick s \<noteq> n"
    using fresh by auto
  have one: "calls_of n [(n, incidentToSave i)] = [incidentToSave i]"
    by (simp add: calls_of_def)
  have other: "\<And>m. m \<noteq> n \<Longrightarrow> calls_of m [(n, incidentToSave i)] = []"
    by (simp add: calls_of_def)
  show ?thesis
    using inv n fresh eq old
    by (auto simp: Cons for_loop_def scans_consistent_def list_all_iff one other)
qed

lemma scans_consistent_filter:
  assumes "scans_consistent st"
  shows "scans_consistent (st\<lparr>inflight := filter p (inflight st)\<rparr>)"
  using assms by (auto simp: scans_consistent_def list_all_iff distinct_map_filter)

lemma scans_consistent_tick:
  assumes "scans_consistent st"
  shows "scans_consistent (st\<lparr>governanceData := g, ticks := Suc (ticks st), systemStatus := x\<rparr>)"
  using assms by (auto simp: scans_consistent_def list_all_iff less_Suc_eq)

lemma scans_consistent_runDigitalScan:
  assumes inv: "scans_consistent st"
  shows "scans_consistent (runDigitalScan r1 r2 now st)"
proof (cases "\<not> isSimulationRunning st \<or> \<not> incidentCollectionRef st")
  case True
  then show ?thesis using inv by (auto simp: runDigitalScan_def)
next
  case False
  let ?g = "next_data r1 r2 now (governanceData st)"
  let ?inc = "incidents_of (checkCompliance ?g)"
  show ?thesis
  proof (cases "?inc = []")
    case True
    have "runDigitalScan r1 r2 now st
            = st\<lparr>governanceData := ?g, ticks := Suc (ticks st), systemStatus := ''Komplian Penuh''\<rparr>"
      using False True by (simp add: runDigitalScan_def Let_def)
    then show ?thesis using scans_consistent_tick [OF inv] by simp
  next
    case nonempty: False
    let ?st1 = "st\<lparr>governanceData := ?g, ticks := Suc (ticks st), systemStatus := ''Insiden Terdeteksi''\<rparr>"
    have r: "runDigitalScan r1 r2 now st = for_loop (ticks st) ?inc ?inc ?st1"
      using False nonempty by (simp add: runDigitalScan_def Let_def)
    have i1: "scans_consistent ?st1" by (rule scans_consistent_tick [OF inv])
    have fresh: "ticks st \<notin> scan_tick ` set (inflight ?st1)"
      using inv by (auto simp: scans_consistent_def list_all_iff)
    have "calls_of (ticks st) (addDoc_calls st) = []"
      using inv by (intro calls_of_fresh [where m = "ticks st"]) (simp_all add: scans_consistent_def)
    then have eq: "calls_of (ticks st) (addDoc_calls ?st1) @ map incidentToSave ?inc = map incidentToSave ?inc"
      by simp
    show ?thesis unfolding r
      by (rule for_loop_consistent [OF i1 _ fresh eq]) simp
  qed
qed

lemma scans_consistent_resolved:
  assumes inv: "scans_consistent st"
  shows "scans_consistent (addDoc_resolved n st)"
proof (cases "filter (\<lambda>s. scan_tick s = n) (inflight st)")
  case Nil
  then show ?thesis using inv by (simp add: addDoc_resolved_def)
next
  case (Cons s rest)
  let ?st1 = "st\<lparr>inflight := filter (\<lambda>s. scan_tick s \<noteq> n) (inflight st)\<rparr>"
  have "s \<in> set (filter (\<lambda>s. scan_tick s = n) (inflight st))" by (simp add: Cons)
  then have mem: "s \<in> set (inflight st)" and tag: "scan_tick s = n" by auto
  have r: "addDoc_resolved n st = for_loop n (newIncidents s) (remaining s) ?st1"
    by (simp add: addDoc_resolved_def Cons)
  have i1: "scans_consistent ?st1" by (rule scans_consistent_filter [OF inv])
  have n: "n < ticks ?st1"
    using inv mem tag by (auto simp: scans_consistent_def list_all_iff)
  have fresh: "n \<notin> scan_tick ` set (inflight ?st1)" by auto
  have eq: "calls_of n (addDoc_calls ?st1) @ map incidentToSave (remaining s)
              = map incidentToSave (newIncidents s)"
    using inv mem tag by (auto simp: scans_consistent_def list_all_iff)
  show ?thesis unfolding r by (rule for_loop_consistent [OF i1 n fresh eq])
qed

lemma scans_consistent_rejected:
  assumes inv: "scans_consistent st"
  shows "scans_consistent (addDoc_rejected n st)"
proof (cases "filter (\<lambda>s. scan_tick s = n) (inflight st)")
  case Nil
  then show ?thesis using inv by (simp add: addDoc_rejected_def)
next
  case (Cons s rest)
  have "scans_consistent (st\<lparr>inflight := filter (\<lambda>s. scan_tick s \<noteq> n) (inflight st)\<rparr>)"
    by (rule scans_consistent_filter [OF inv])
  then show ?thesis
    by (simp add: addDoc_rejected_def Cons scans_consistent_def)
qed

lemma scans_consistent_step:
  assumes "scans_consistent st"
  shows "scans_consistent (step pf e st)"
proof (cases e)
  case AuthReady
  then show ?thesis using assms by (simp add: subscribe_effect_def scans_consistent_def)
next
  case (Timer r1 r2 now)
  then show ?thesis using assms scans_consistent_runDigitalScan by simp
next
  case (AddDocResolved n)
  then show ?thesis using assms scans_consistent_resolved by simp
next
  case (AddDocRejected n)
  then show ?thesis using assms scans_consistent_rejected by simp
next
  case (SnapshotNext docs)
  then show ?thesis using assms by (simp add: scans_consistent_def)
next
  case SnapshotError
  then show ?thesis using assms by (simp add: scans_consistent_def)
qed

lemma scans_consistent_mount: "scans_consistent (App_mount t0)"
  by (simp add: App_mount_def subscribe_effect_def scans_consistent_def)

lemma scans_consistent_run: "scans_consistent (run pf evs (App_mount t0))"
  by (rule run_induct [OF scans_consistent_mount scans_consistent_step])

lemmas eval_defs = run_def App_mount_def subscribe_effect_def runDigitalScan_def
  next_data_def incidents_of_checkCompliance for_loop_def addDoc_resolved_def addDoc_rejected_def Let_def

lemma three_ticks:
  "run strict_platform (take 4 overlapping_ticks) (App_mount ''09:59:56'') =
     \<lparr> isAuthReady = True, incidentCollectionRef = True,
       governanceData = \<lparr>wasteVolume = 0.854, trafficDensity = 0.841, lastUpdate = ''10:00:08''\<rparr>,
       incidents = [], systemStatus = ''Insiden Terdeteksi'', isSimulationRunning = True,
       console = [],
       addDoc_calls = [(2, incidentToSave (waste_incident \<lparr>wasteVolume = 0.854, trafficDensity = 0.841, lastUpdate = ''10:00:08''\<rparr>))],
       inflight = [\<lparr>scan_tick = 2,
          newIncidents = [waste_incident \<lparr>wasteVolume = 0.854, trafficDensity = 0.841, lastUpdate = ''10:00:08''\<rparr>,
                          traffic_incident \<lparr>wasteVolume = 0.854, trafficDensity = 0.841, lastUpdate = ''10:00:08''\<rparr>],
          remaining = [traffic_incident \<lparr>wasteVolume = 0.854, trafficDensity = 0.841, lastUpdate = ''10:00:08''\<rparr>]\<rparr>],
       ticks = 3 \<rparr>"
  by (simp add: overlapping_ticks_def eval_defs)

text \<open>
  C3, as stated, fails: nothing makes a tick wait. With no write settling, the fourth tick
  starts its writes while the scan of the third is suspended, and once the third's first
  write settles its second write follows the first write of the fourth: the writes of
  the two ticks interleave.
\<close>

theorem ticks_interleave_counterexample:
  "length (inflight (run strict_platform (take 5 overlapping_ticks) (App_mount ''09:59:56''))) = 2
   \<and> map fst (addDoc_calls (run strict_platform overlapping_ticks (App_mount ''09:59:56''))) = [2, 3, 2]
   \<and> \<not> appends_serialized (addDoc_calls (run strict_platform overlapping_ticks (App_mount ''09:59:56'')))"
proof -
  have a: "length (inflight (run strict_platform (take 5 overlapping_ticks) (App_mount ''09:59:56''))) = 2"
    by (simp add: overlapping_ticks_def eval_defs)
  have b: "map fst (addDoc_calls (run strict_platform overlapping_ticks (App_mount ''09:59:56''))) = [2, 3, 2]"
    by (simp add: overlapping_ticks_def eval_defs)
  have c: "\<not> distinct (remdups_adj [2, 3, 2 :: nat])" by simp
  show ?thesis using a b c by (simp add: appends_serialized_def)
qed

text \<open>
  C3, amended. Ticks are not serialized against each other, only the writes of one tick
  are sequential. In every reachable state, a suspended scan is the only one of its
  tick, and the writes it has made so far followed by the incidents it has not reached
  are its incidents in the order of the evaluation; and while it is suspended, a tick
  of the timer makes its first write at once.
\<close>

theorem tick_appends_in_order:
  assumes "s \<in> set (inflight (run pf evs (App_mount t0)))"
  shows "calls_of (scan_tick s) (addDoc_calls (run pf evs (App_mount t0))) @ map incidentToSave (remaining s)
           = map incidentToSave (newIncidents s)
       \<and> (\<forall>s' \<in> set (inflight (run pf evs (App_mount t0))). scan_tick s' = scan_tick s \<longrightarrow> s' = s)
       \<and> (isSimulationRunning (run pf evs (App_mount t0)) \<and> isAuthReady (run pf evs (App_mount t0))
            \<and> incidentCollectionRef (run pf evs (App_mount t0)) \<longrightarrow>
          addDoc_calls (step pf (Timer r1 r2 now) (run pf evs (App_mount t0))) =
            addDoc_calls (run pf evs (App_mount t0)) @
            (case incidents_of (checkCompliance (next_data r1 r2 now (governanceData (run pf evs (App_mount t0))))) of
               [] \<Rightarrow> [] | i # rest \<Rightarrow> [(ticks (run pf evs (App_mount t0)), incidentToSave i)]))"
proof -
  let ?st = "run pf evs (App_mount t0)"
  have inv: "scans_consistent ?st" by (rule scans_consistent_run)
  have a: "calls_of (scan_tick s) (addDoc_calls ?st) @ map incidentToSave (remaining s)
             = map incidentToSave (newIncidents s)"
    using inv assms by (auto simp: scans_consistent_def list_all_iff)
  have "distinct (map scan_tick (inflight ?st))" using inv by (simp add: scans_consistent_def)
  then have "inj_on scan_tick (set (inflight ?st))" by (simp add: distinct_map)
  then have b: "\<forall>s' \<in> set (inflight ?st). scan_tick s' = scan_tick s \<longrightarrow> s' = s"
    using assms by (auto dest: inj_onD)
  have c: "isSimulationRunning ?st \<and> isAuthReady ?st \<and> incidentCollectionRef ?st \<longrightarrow>
          addDoc_calls (step pf (Timer r1 r2 now) ?st) =
            addDoc_calls ?st @
            (case incidents_of (checkCompliance (next_data r1 r2 now (governanceData ?st))) of
               [] \<Rightarrow> [] | i # rest \<Rightarrow> [(ticks ?st, incidentToSave i)])"
    using runDigitalScan_running(4) [of ?st r1 r2 now] by simp
  from a b c show ?thesis by blast
qed

theorem tick_appends_in_order_witness:
  "hd (inflight (run strict_platform (take 4 overlapping_ticks) (App_mount ''09:59:56'')))
     \<in> set (inflight (run strict_platform (take 4 overlapping_ticks) (App_mount ''09:59:56'')))
   \<and> scan_tick (hd (inflight (run strict_platform (take 4 overlapping_ticks) (App_mount ''09:59:56'')))) = 2
   \<and> length (remaining (hd (inflight (run strict_platform (take 4 overlapping_ticks) (App_mount ''09:59:56''))))) = 1
   \<and> calls_of 2 (addDoc_calls (run strict_platform (take 4 overlapping_ticks) (App_mount ''09:59:56'')))
       @ map incidentToSave (remaining (hd (inflight (run strict_platform (take 4 overlapping_ticks) (App_mount ''09:59:56'')))))
     = map incidentToSave (newIncidents (hd (inflight (run strict_platform (take 4 overlapping_ticks) (App_mount ''09:59:56'')))))
   \<and> map fst (addDoc_calls (step strict_platform (Timer 0.99 0.99 ''10:00:12'')
        (run strict_platform (take 4 overlapping_ticks) (App_mount ''09:59:56'')))) = [2, 3]"
proof -
  let ?st = "run strict_platform (take 4 overlapping_ticks) (App_mount ''09:59:56'')"
  have mem: "hd (inflight ?st) \<in> set (inflight ?st)" by (simp add: three_ticks)
  have tag: "scan_tick (hd (inflight ?st)) = 2" by (simp add: three_ticks)
  have len: "length (remaining (hd (inflight ?st))) = 1" by (simp add: three_ticks)
  have flags: "isSimulationRunning ?st \<and> isAuthReady ?st \<and> incidentCollectionRef ?st"
    by (simp add: three_ticks)
  have g: "incidents_of (checkCompliance (next_data 0.99 0.99 ''10:00:12'' (governanceData ?st))) \<noteq> []"
    by (simp add: three_ticks next_data_def incidents_of_checkCompliance)
  have tk: "ticks ?st = 3" "map fst (addDoc_calls ?st) = [2]" by (simp_all add: three_ticks)
  from tick_appends_in_order [OF mem, of "0.99" "0.99" "''10:00:12''"] flags
  have *: "calls_of (scan_tick (hd (inflight ?st))) (addDoc_calls ?st) @ map incidentToSave (remaining (hd (inflight ?st)))
           = map incidentToSave (newIncidents (hd (inflight ?st)))"
    and **: "addDoc_calls (step strict_platform (Timer 0.99 0.99 ''10:00:12'') ?st) =
            addDoc_calls ?st @
            (case incidents_of (checkCompliance (next_data 0.99 0.99 ''10:00:12'' (governanceData ?st))) of
               [] \<Rightarrow> [] | i # rest \<Rightarrow> [(ticks ?st, incidentToSave i)])"
    by blast+
  have "map fst (addDoc_calls (step strict_platform (Timer 0.99 0.99 ''10:00:12'') ?st)) = [2, 3]"
    unfolding ** using g tk by (simp split: list.split)
  with mem tag len * show ?thesis by (simp only: tag)
qed

section \<open>What is written\<close>

lemma keys_saved_drafts:
  "keys (incidentToSave (waste_incident d)) = saved_fields"
  "keys (incidentToSave (traffic_incident d)) = saved_fields"
  by (simp_all add: keys_def incidentToSave_def waste_incident_def traffic_incident_def saved_fields_def)

lemma keys_checkCompliance:
  "list_all (\<lambda>i. keys (incidentToSave i) = saved_fields) (incidents_of (checkCompliance d))"
  by (simp add: incidents_of_checkCompliance keys_saved_drafts)

lemma for_loop_saves:
  assumes "saves_without_timestamp st"
    and "list_all (\<lambda>i. keys (incidentToSave i) = saved_fields) todo"
  shows "saves_without_timestamp (for_loop n newInc todo st)"
  using assms by (cases todo) (simp_all add: for_loop_def saves_without_timestamp_def)

lemma saves_runDigitalScan:
  assumes "saves_without_timestamp st"
  shows "saves_without_timestamp (runDigitalScan r1 r2 now st)"
proof -
  have "saves_without_timestamp
          (st\<lparr>governanceData := g, ticks := k, systemStatus := x\<rparr>)" for g k x
    using assms by (simp add: saves_without_timestamp_def)
  then show ?thesis
    using assms keys_checkCompliance
    by (simp add: runDigitalScan_def Let_def for_loop_saves)
qed

lemma saves_resolved:
  assumes inv: "saves_without_timestamp st"
  shows "saves_without_timestamp (addDoc_resolved n st)"
proof (cases "filter (\<lambda>s. scan_tick s = n) (inflight st)")
  case Nil
  then show ?thesis using inv by (simp add: addDoc_resolved_def)
next
  case (Cons s rest)
  have "s \<in> set (filter (\<lambda>s. scan_tick s = n) (inflight st))" by (simp add: Cons)
  then have "s \<in> set (inflight st)" by simp
  then have todo: "list_all (\<lambda>i. keys (incidentToSave i) = saved_fields) (remaining s)"
    using inv by (auto simp: saves_without_timestamp_def list_all_iff)
  have "saves_without_timestamp (st\<lparr>inflight := filter (\<lambda>s. scan_tick s \<noteq> n) (inflight st)\<rparr>)"
    using inv by (auto simp: saves_without_timestamp_def list_all_iff)
  then show ?thesis
    by (simp add: addDoc_resolved_def Cons for_loop_saves [OF _ todo])
qed

lemma saves_rejected:
  assumes inv: "saves_without_timestamp st"
  shows "saves_without_timestamp (addDoc_rejected n st)"
  using inv
  by (cases "filter (\<lambda>s. scan_tick s = n) (inflight st)")
     (auto simp: addDoc_rejected_def saves_without_timestamp_def list_all_iff)

lemma saves_step:
  assumes "saves_without_timestamp st"
  shows "saves_without_timestamp (step pf e st)"
proof (cases e)
  case AuthReady
  then show ?thesis using assms by (simp add: subscribe_effect_def saves_without_timestamp_def)
next
  case (Timer r1 r2 now)
  then show ?thesis using assms saves_runDigitalScan by simp
next
  case (AddDocResolved n)
  then show ?thesis using assms saves_resolved by simp
next
  case (AddDocRejected n)
  then show ?thesis using assms saves_rejected by simp
next
  case (SnapshotNext docs)
  then show ?thesis using assms by (simp add: saves_without_timestamp_def)
next
  case SnapshotError
  then show ?thesis using assms by (simp add: saves_without_timestamp_def)
qed

lemma saves_mount: "saves_without_timestamp (App_mount t0)"
  by (simp add: App_mount_def subscribe_effect_def saves_without_timestamp_def)

text \<open>
  C10. Every record passed to \<^verbatim>\<open>addDoc\<close>, in every reachable state, has exactly the
  fields type, area, description and status, in that order; the \<^verbatim>\<open>timestamp\<close> the
  evaluation attached is gone.
\<close>

theorem appended_records_have_no_timestamp:
  assumes "c \<in> set (addDoc_calls (run pf evs (App_mount t0)))"
  shows "keys (snd c) = [''type'', ''area'', ''description'', ''status'']
         \<and> get_field (snd c) ''timestamp'' = None"
proof -
  have "saves_without_timestamp (run pf evs (App_mount t0))"
    by (rule run_induct [OF saves_mount saves_step])
  then have k: "keys (snd c) = saved_fields"
    using assms by (auto simp: saves_without_timestamp_def list_all_iff)
  then have "set (map fst (snd c)) = set saved_fields"
    by (simp add: keys_def)
  then have "''timestamp'' \<notin> fst ` set (snd c)"
    by (simp add: saved_fields_def)
  then have "get_field (snd c) ''timestamp'' = None"
    by (simp add: get_field_def map_of_eq_None_iff)
  with k show ?thesis by (simp add: saved_fields_def)
qed

theorem appended_records_have_no_timestamp_witness:
  "hd (addDoc_calls (run strict_platform (take 4 overlapping_ticks) (App_mount ''09:59:56'')))
     \<in> set (addDoc_calls (run strict_platform (take 4 overlapping_ticks) (App_mount ''09:59:56'')))
   \<and> keys (waste_incident \<lparr>wasteVolume = 0.854, trafficDensity = 0.841, lastUpdate = ''10:00:08''\<rparr>)
       = [''type'', ''area'', ''description'', ''status'', ''timestamp'']
   \<and> snd (hd (addDoc_calls (run strict_platform (take 4 overlapping_ticks) (App_mount ''09:59:56''))))
       = incidentToSave (waste_incident \<lparr>wasteVolume = 0.854, trafficDensity = 0.841, lastUpdate = ''10:00:08''\<rparr>)
   \<and> keys (snd (hd (addDoc_calls (run strict_platform (take 4 overlapping_ticks) (App_mount ''09:59:56'')))))
       = [''type'', ''area'', ''description'', ''status'']
   \<and> get_field (snd (hd (addDoc_calls (run strict_platform (take 4 overlapping_ticks) (App_mount ''09:59:56''))))) ''timestamp'' = None"
proof -
  let ?st = "run strict_platform (take 4 overlapping_ticks) (App_mount ''09:59:56'')"
  have mem: "hd (addDoc_calls ?st) \<in> set (addDoc_calls ?st)" by (simp add: three_ticks)
  have d: "keys (waste_incident \<lparr>wasteVolume = 0.854, trafficDensity = 0.841, lastUpdate = ''10:00:08''\<rparr>)
       = [''type'', ''area'', ''description'', ''status'', ''timestamp'']"
    by (simp add: keys_def waste_incident_def)
  have e: "snd (hd (addDoc_calls ?st))
       = incidentToSave (waste_incident \<lparr>wasteVolume = 0.854, trafficDensity = 0.841, lastUpdate = ''10:00:08''\<rparr>)"
    by (simp add: three_ticks)
  from appended_records_have_no_timestamp [OF mem] mem d e show ?thesis by blast
qed

section \<open>Failed writes\<close>

lemma scanning_step:
  assumes "scanning st"
  shows "scanning (step pf e st)"
  using assms
  by (cases e) (simp_all add: scanning_def subscribe_effect_def runDigitalScan_def Let_def)

lemma scanning_run:
  assumes "scanning st"
  shows "scanning (run pf evs st)"
  by (rule run_induct [OF assms scanning_step])

lemma for_loop_inflight:
  "inflight (for_loop n newInc todo st) =
     inflight st @ (case todo of [] \<Rightarrow> [] | i # rest \<Rightarrow> [\<lparr>scan_tick = n, newIncidents = newInc, remaining = rest\<rparr>])"
  "addDoc_calls (for_loop n newInc todo st) =
     addDoc_calls st @ (case todo of [] \<Rightarrow> [] | i # rest \<Rightarrow> [(n, incidentToSave i)])"
  by (simp_all add: for_loop_def split: list.split)

lemma inflight_needs_scanning_step:
  assumes "inflight st = [] \<or> scanning st"
  shows "inflight (step pf e st) = [] \<or> scanning (step pf e st)"
proof (cases "scanning st")
  case True
  then show ?thesis using scanning_step by blast
next
  case False
  with assms have empty: "inflight st = []" by simp
  show ?thesis using False empty
    by (cases e)
       (auto simp: scanning_def subscribe_effect_def runDigitalScan_def
          addDoc_resolved_def addDoc_rejected_def)
qed

lemma inflight_needs_scanning:
  "inflight (run pf evs (App_mount t0)) = [] \<or> scanning (run pf evs (App_mount t0))"
proof (rule run_induct [where P = "\<lambda>st. inflight st = [] \<or> scanning st"])
  show "inflight (App_mount t0) = [] \<or> scanning (App_mount t0)"
    by (simp add: App_mount_def subscribe_effect_def)
qed (rule inflight_needs_scanning_step)

lemma tick_over_step:
  assumes "tick_over n st"
  shows "tick_over n (step pf e st) \<and> calls_of n (addDoc_calls (step pf e st)) = calls_of n (addDoc_calls st)"
proof (cases e)
  case AuthReady
  then show ?thesis using assms by (simp add: tick_over_def subscribe_effect_def)
next
  case (Timer r1 r2 now)
  have "calls_of n [(ticks st, x)] = []" for x
    using assms by (simp add: tick_over_def calls_of_def)
  then show ?thesis using assms Timer
    by (auto simp: tick_over_def runDigitalScan_def Let_def for_loop_inflight split: list.split)
next
  case (AddDocResolved m)
  show ?thesis
  proof (cases "filter (\<lambda>s. scan_tick s = m) (inflight st)")
    case Nil
    then show ?thesis using assms AddDocResolved by (simp add: addDoc_resolved_def)
  next
    case (Cons s rest)
    have "s \<in> set (filter (\<lambda>s. scan_tick s = m) (inflight st))" by (simp add: Cons)
    then have "s \<in> set (inflight st)" "scan_tick s = m" by auto
    then have neq: "m \<noteq> n" using assms by (auto simp: tick_over_def)
    then have "calls_of n [(m, x)] = []" for x by (simp add: calls_of_def)
    moreover have "calls_of n [] = []" by (simp add: calls_of_def)
    ultimately show ?thesis using assms AddDocResolved neq
      by (auto simp: tick_over_def addDoc_resolved_def Cons for_loop_inflight split: list.split)
  qed
next
  case (AddDocRejected m)
  then show ?thesis using assms
    by (cases "filter (\<lambda>s. scan_tick s = m) (inflight st)")
       (auto simp: tick_over_def addDoc_rejected_def)
next
  case (SnapshotNext docs)
  then show ?thesis using assms by (simp add: tick_over_def)
next
  case SnapshotError
  then show ?thesis using assms by (simp add: tick_over_def)
qed

lemma tick_over_run:
  assumes "tick_over n st"
  shows "calls_of n (addDoc_calls (run pf evs st)) = calls_of n (addDoc_calls st)"
  using assms unfolding run_def
proof (induction evs arbitrary: st)
  case Nil
  then show ?case by simp
next
  case (Cons e evs)
  from tick_over_step [OF Cons.prems, of pf e]
  have "tick_over n (step pf e st)"
    and "calls_of n (addDoc_calls (step pf e st)) = calls_of n (addDoc_calls st)" by blast+
  with Cons.IH [of "step pf e st"] show ?case by simp
qed

lemma run_Cons: "run pf (e # evs) st = run pf evs (step pf e st)"
  by (simp add: run_def)

lemma addDoc_rejected_inflight:
  "inflight (addDoc_rejected n st) = filter (\<lambda>s'. scan_tick s' \<noteq> n) (inflight st)"
proof (cases "filter (\<lambda>s'. scan_tick s' = n) (inflight st)")
  case Nil
  then have "\<forall>s' \<in> set (inflight st). scan_tick s' \<noteq> n"
    by (simp add: filter_empty_conv)
  then have "filter (\<lambda>s'. scan_tick s' \<noteq> n) (inflight st) = inflight st"
    by (simp add: filter_id_conv)
  then show ?thesis using Nil by (simp add: addDoc_rejected_def)
next
  case (Cons x rest)
  then show ?thesis by (simp add: addDoc_rejected_def)
qed

lemma only_scan_of_its_tick:
  assumes "scans_consistent st" and "s \<in> set (inflight st)"
  shows "filter (\<lambda>s'. scan_tick s' = scan_tick s) (inflight st) = [s]"
proof -
  have d: "distinct (map scan_tick (inflight st))"
    using assms(1) by (simp add: scans_consistent_def)
  have "s \<in> set xs \<Longrightarrow> filter (\<lambda>s'. scan_tick s' = scan_tick s) xs = [s]"
    if "distinct (map scan_tick xs)" for xs :: "scan list"
    using that by (induction xs) (auto simp: filter_empty_conv image_iff)
  then show ?thesis using d assms(2) by blast
qed

lemma addDoc_resolved_scan:
  assumes "scans_consistent st" and "s \<in> set (inflight st)"
  shows "addDoc_resolved (scan_tick s) st =
           for_loop (scan_tick s) (newIncidents s) (remaining s)
             (st\<lparr>inflight := filter (\<lambda>s'. scan_tick s' \<noteq> scan_tick s) (inflight st)\<rparr>)"
  by (simp add: addDoc_resolved_def only_scan_of_its_tick [OF assms])

lemma resolved_appends_next:
  assumes "scans_consistent st" and "s \<in> set (inflight st)"
  shows "addDoc_calls (step pf (AddDocResolved (scan_tick s)) st) =
           addDoc_calls st @ (case remaining s of [] \<Rightarrow> [] | i # rest \<Rightarrow> [(scan_tick s, incidentToSave i)])"
  by (simp add: addDoc_resolved_scan [OF assms] for_loop_inflight)

lemma resolved_to_the_end:
  assumes "scans_consistent st" and "s \<in> set (inflight st)"
  shows "calls_of (scan_tick s)
           (addDoc_calls (run pf (replicate (Suc (length (remaining s))) (AddDocResolved (scan_tick s))) st))
         = map incidentToSave (newIncidents s)"
  using assms
proof (induction "remaining s" arbitrary: st s)
  case Nil
  have "calls_of (scan_tick s) (addDoc_calls st) @ map incidentToSave (remaining s)
          = map incidentToSave (newIncidents s)"
    using Nil.prems by (auto simp: scans_consistent_def list_all_iff)
  moreover have "addDoc_calls (step pf (AddDocResolved (scan_tick s)) st) = addDoc_calls st"
    using resolved_appends_next [OF Nil.prems, of pf] Nil.hyps [symmetric] by simp
  ultimately show ?case using Nil.hyps [symmetric] by (simp add: run_def)
next
  case (Cons i rest)
  let ?n = "scan_tick s"
  let ?st1 = "step pf (AddDocResolved ?n) st"
  let ?s1 = "\<lparr>scan_tick = ?n, newIncidents = newIncidents s, remaining = rest\<rparr>"
  have inv1: "scans_consistent ?st1"
    using Cons.prems(1) by (simp add: scans_consistent_resolved)
  have mem1: "?s1 \<in> set (inflight ?st1)"
    using Cons.hyps(2) [symmetric]
    by (simp add: addDoc_resolved_scan [OF Cons.prems] for_loop_inflight)
  have "rest = remaining ?s1" by simp
  from Cons.hyps(1) [OF this inv1 mem1]
  have "calls_of ?n (addDoc_calls (run pf (replicate (Suc (length rest)) (AddDocResolved ?n)) ?st1))
          = map incidentToSave (newIncidents s)"
    by simp
  then show ?case using Cons.hyps(2) [symmetric] by (simp add: run_Cons)
qed

lemma timer_scan_suspended:
  assumes "scanning st"
    and "incidents_of (checkCompliance (next_data r1 r2 now (governanceData st))) = i # rest"
  shows "\<lparr>scan_tick = ticks st, newIncidents = i # rest, remaining = rest\<rparr>
           \<in> set (inflight (step pf (Timer r1 r2 now) st))"
  using assms by (simp add: scanning_def runDigitalScan_def Let_def for_loop_inflight)

lemma timer_writes_all:
  assumes inv: "scans_consistent st" and sc: "scanning st"
  shows "calls_of (ticks st)
           (addDoc_calls (run pf
              (replicate (length (incidents_of (checkCompliance (next_data r1 r2 now (governanceData st)))))
                 (AddDocResolved (ticks st)))
              (step pf (Timer r1 r2 now) st)))
         = map incidentToSave (incidents_of (checkCompliance (next_data r1 r2 now (governanceData st))))"
proof (cases "incidents_of (checkCompliance (next_data r1 r2 now (governanceData st)))")
  case Nil
  have "calls_of (ticks st) (addDoc_calls st) = []"
    using inv by (intro calls_of_fresh [where m = "ticks st"]) (simp_all add: scans_consistent_def)
  moreover have "addDoc_calls (step pf (Timer r1 r2 now) st) = addDoc_calls st"
    using sc Nil runDigitalScan_running(4) [of st r1 r2 now] by (simp add: scanning_def)
  ultimately show ?thesis using Nil by (simp add: run_def)
next
  case (Cons i rest)
  let ?t = "step pf (Timer r1 r2 now) st"
  let ?s = "\<lparr>scan_tick = ticks st, newIncidents = i # rest, remaining = rest\<rparr>"
  have inv1: "scans_consistent ?t" using inv by (rule scans_consistent_step)
  have mem: "?s \<in> set (inflight ?t)" by (rule timer_scan_suspended [OF sc Cons])
  from resolved_to_the_end [OF inv1 mem, of pf] show ?thesis by (simp add: Cons)
qed

lemma four_ticks:
  "run strict_platform (take 5 overlapping_ticks) (App_mount ''09:59:56'') =
     \<lparr> isAuthReady = True, incidentCollectionRef = True,
       governanceData = \<lparr>wasteVolume = 0.972, trafficDensity = 0.988, lastUpdate = ''10:00:12''\<rparr>,
       incidents = [], systemStatus = ''Insiden Terdeteksi'', isSimulationRunning = True,
       console = [],
       addDoc_calls =
         [(2, incidentToSave (waste_incident \<lparr>wasteVolume = 0.854, trafficDensity = 0.841, lastUpdate = ''10:00:08''\<rparr>)),
          (3, incidentToSave (waste_incident \<lparr>wasteVolume = 0.972, trafficDensity = 0.988, lastUpdate = ''10:00:12''\<rparr>))],
       inflight =
         [\<lparr>scan_tick = 2,
            newIncidents = [waste_incident \<lparr>wasteVolume = 0.854, trafficDensity = 0.841, lastUpdate = ''10:00:08''\<rparr>,
                            traffic_incident \<lparr>wasteVolume = 0.854, trafficDensity = 0.841, lastUpdate = ''10:00:08''\<rparr>],
            remaining = [traffic_incident \<lparr>wasteVolume = 0.854, trafficDensity = 0.841, lastUpdate = ''10:00:08''\<rparr>]\<rparr>,
          \<lparr>scan_tick = 3,
            newIncidents = [waste_incident \<lparr>wasteVolume = 0.972, trafficDensity = 0.988, lastUpdate = ''10:00:12''\<rparr>,
                            traffic_incident \<lparr>wasteVolume = 0.972, trafficDensity = 0.988, lastUpdate = ''10:00:12''\<rparr>],
            remaining = [traffic_incident \<lparr>wasteVolume = 0.972, trafficDensity = 0.988, lastUpdate = ''10:00:12''\<rparr>]\<rparr>],
       ticks = 4 \<rparr>"
  by (simp add: overlapping_ticks_def eval_defs)

lemma run_Nil: "run pf [] st = st"
  by (simp add: run_def)

text \<open>
  C4. When the write a suspended scan awaits fails, nothing is written at that moment,
  the failure is logged, and only the scan of that tick ends: the other suspended scans
  stay as they were. Whatever happens later, no further write of the failed tick is
  made: its remaining incidents are dropped. Every scan suspended later goes on: when
  its write settles it makes the write of its next incident, and when its writes settle
  one after the other it has written all its incidents. Any later tick of the timer runs
  its whole cycle: it derives the next snapshot, sets the status from the evaluation,
  makes the first write of its incidents and, as its writes settle, all of them.
\<close>

theorem append_failure_isolated:
  assumes "s \<in> set (inflight (run pf evs0 (App_mount t0)))"
  shows "let st = run pf evs0 (App_mount t0);
             failed = step pf (AddDocRejected (scan_tick s)) st;
             later = run pf evs failed;
             drafts = incidents_of (checkCompliance (next_data r1 r2 now (governanceData later)));
             ticked = step pf (Timer r1 r2 now) later
         in addDoc_calls failed = addDoc_calls st
          \<and> console failed = console st @ [''Failed to log incident to Firestore:'']
          \<and> inflight failed = filter (\<lambda>s'. scan_tick s' \<noteq> scan_tick s) (inflight st)
          \<and> calls_of (scan_tick s) (addDoc_calls later) = calls_of (scan_tick s) (addDoc_calls st)
          \<and> (\<forall>s' \<in> set (inflight later).
                addDoc_calls (step pf (AddDocResolved (scan_tick s')) later)
                  = addDoc_calls later @
                    (case remaining s' of [] \<Rightarrow> [] | i # rest \<Rightarrow> [(scan_tick s', incidentToSave i)])
              \<and> calls_of (scan_tick s')
                  (addDoc_calls (run pf (replicate (Suc (length (remaining s'))) (AddDocResolved (scan_tick s'))) later))
                  = map incidentToSave (newIncidents s'))
          \<and> governanceData ticked = next_data r1 r2 now (governanceData later)
          \<and> systemStatus ticked = (if drafts = [] then ''Komplian Penuh'' else ''Insiden Terdeteksi'')
          \<and> addDoc_calls ticked
              = addDoc_calls later @ (case drafts of [] \<Rightarrow> [] | i # rest \<Rightarrow> [(ticks later, incidentToSave i)])
          \<and> calls_of (ticks later)
               (addDoc_calls (run pf (replicate (length drafts) (AddDocResolved (ticks later))) ticked))
              = map incidentToSave drafts"
proof -
  let ?st = "run pf evs0 (App_mount t0)"
  let ?n = "scan_tick s"
  let ?failed = "step pf (AddDocRejected ?n) ?st"
  let ?later = "run pf evs ?failed"
  have inv: "scans_consistent ?st" by (rule scans_consistent_run)
  have invf: "scans_consistent ?failed" using inv by (rule scans_consistent_step)
  have invl: "scans_consistent ?later"
    by (rule run_induct [where P = scans_consistent, OF invf scans_consistent_step])
  obtain x rest where f: "filter (\<lambda>s'. scan_tick s' = ?n) (inflight ?st) = x # rest"
    using assms by (cases "filter (\<lambda>s'. scan_tick s' = ?n) (inflight ?st)") (auto simp: filter_empty_conv)
  have a: "addDoc_calls ?failed = addDoc_calls ?st" by simp
  have b: "console ?failed = console ?st @ [''Failed to log incident to Firestore:'']"
    by (simp add: addDoc_rejected_def f)
  have i: "inflight ?failed = filter (\<lambda>s'. scan_tick s' \<noteq> ?n) (inflight ?st)"
    by (simp add: addDoc_rejected_inflight)
  have "?n < ticks ?st" using inv assms by (auto simp: scans_consistent_def list_all_iff)
  then have over: "tick_over ?n ?failed"
    by (auto simp: tick_over_def addDoc_rejected_def f)
  have c: "calls_of ?n (addDoc_calls ?later) = calls_of ?n (addDoc_calls ?st)"
    using tick_over_run [OF over, of pf evs] a by simp
  have r: "\<forall>s' \<in> set (inflight ?later).
                addDoc_calls (step pf (AddDocResolved (scan_tick s')) ?later)
                  = addDoc_calls ?later @
                    (case remaining s' of [] \<Rightarrow> [] | i # rest \<Rightarrow> [(scan_tick s', incidentToSave i)])
              \<and> calls_of (scan_tick s')
                  (addDoc_calls (run pf (replicate (Suc (length (remaining s'))) (AddDocResolved (scan_tick s'))) ?later))
                  = map incidentToSave (newIncidents s')"
    using resolved_appends_next [OF invl] resolved_to_the_end [OF invl] by blast
  have "scanning ?st" using inflight_needs_scanning [of pf evs0 t0] assms by auto
  then have "scanning ?failed" by (rule scanning_step)
  then have sc: "scanning ?later" by (rule scanning_run)
  then have run: "isSimulationRunning ?later" "isAuthReady ?later" "incidentCollectionRef ?later"
    by (simp_all add: scanning_def)
  have t: "step pf (Timer r1 r2 now) ?later = runDigitalScan r1 r2 now ?later"
    using run by simp
  note d = runDigitalScan_running [OF run(1) run(3), of r1 r2 now]
  note w = timer_writes_all [OF invl sc, of pf r1 r2 now, unfolded t]
  show ?thesis
    unfolding Let_def t using a b i c r d w by simp
qed

theorem append_failure_isolated_witness:
  "hd (inflight (run strict_platform (take 5 overlapping_ticks) (App_mount ''09:59:56'')))
     \<in> set (inflight (run strict_platform (take 5 overlapping_ticks) (App_mount ''09:59:56'')))
   \<and> map scan_tick (inflight (run strict_platform (take 5 overlapping_ticks) (App_mount ''09:59:56''))) = [2, 3]
   \<and> length (newIncidents (hd (inflight (run strict_platform (take 5 overlapping_ticks) (App_mount ''09:59:56''))))) = 2
   \<and> console (step strict_platform (AddDocRejected 2)
        (run strict_platform (take 5 overlapping_ticks) (App_mount ''09:59:56'')))
      = [''Failed to log incident to Firestore:'']
   \<and> map scan_tick (inflight (step strict_platform (AddDocRejected 2)
        (run strict_platform (take 5 overlapping_ticks) (App_mount ''09:59:56'')))) = [3]
   \<and> length (calls_of 2 (addDoc_calls (step strict_platform (AddDocRejected 2)
        (run strict_platform (take 5 overlapping_ticks) (App_mount ''09:59:56''))))) = 1
   \<and> length (calls_of 3 (addDoc_calls (run strict_platform [AddDocResolved 3, AddDocResolved 3]
        (step strict_platform (AddDocRejected 2)
          (run strict_platform (take 5 overlapping_ticks) (App_mount ''09:59:56'')))))) = 2
   \<and> systemStatus (step strict_platform (Timer 0.5 0.5 ''10:00:16'')
        (step strict_platform (AddDocRejected 2)
          (run strict_platform (take 5 overlapping_ticks) (App_mount ''09:59:56''))))
      = ''Insiden Terdeteksi''
   \<and> length (calls_of 4 (addDoc_calls (run strict_platform [AddDocResolved 4, AddDocResolved 4]
        (step strict_platform (Timer 0.5 0.5 ''10:00:16'')
          (step strict_platform (AddDocRejected 2)
            (run strict_platform (take 5 overlapping_ticks) (App_mount ''09:59:56''))))))) = 2"
proof -
  let ?st = "run strict_platform (take 5 overlapping_ticks) (App_mount ''09:59:56'')"
  let ?F = "step strict_platform (AddDocRejected 2) ?st"
  let ?T = "step strict_platform (Timer 0.5 0.5 ''10:00:16'') ?F"
  let ?drafts = "incidents_of (checkCompliance (next_data 0.5 0.5 ''10:00:16'' (governanceData ?F)))"
  have mem: "hd (inflight ?st) \<in> set (inflight ?st)" by (simp add: four_ticks)
  have tag: "scan_tick (hd (inflight ?st)) = 2" by (simp add: four_ticks)
  have st: "map scan_tick (inflight ?st) = [2, 3]" "length (newIncidents (hd (inflight ?st))) = 2"
     "console ?st = []" "length (calls_of 2 (addDoc_calls ?st)) = 1"
    by (simp_all add: four_ticks calls_of_def)
  have F: "map scan_tick (inflight ?F) = [3]" "ticks ?F = 4"
    by (simp_all add: four_ticks addDoc_rejected_def)
  have mem3: "hd (inflight ?F) \<in> set (inflight ?F)"
    by (simp add: four_ticks addDoc_rejected_def)
  have s3: "scan_tick (hd (inflight ?F)) = 3" "length (remaining (hd (inflight ?F))) = 1"
     "length (newIncidents (hd (inflight ?F))) = 2"
    by (simp_all add: four_ticks addDoc_rejected_def)
  have g: "governanceData ?F = \<lparr>wasteVolume = 0.972, trafficDensity = 0.988, lastUpdate = ''10:00:12''\<rparr>"
    by (simp add: four_ticks)
  have d: "length ?drafts = 2"
    unfolding g by (simp add: next_data_def incidents_of_checkCompliance)
  then have dne: "?drafts \<noteq> []" by auto
  note iso = append_failure_isolated [OF mem, of "[]" "0.5" "0.5" "''10:00:16''",
      unfolded Let_def tag run_Nil]
  from iso have c: "console ?F = console ?st @ [''Failed to log incident to Firestore:'']"
    and k: "calls_of 2 (addDoc_calls ?F) = calls_of 2 (addDoc_calls ?st)"
    and ball: "\<forall>s' \<in> set (inflight ?F).
                addDoc_calls (step strict_platform (AddDocResolved (scan_tick s')) ?F)
                  = addDoc_calls ?F @
                    (case remaining s' of [] \<Rightarrow> [] | i # rest \<Rightarrow> [(scan_tick s', incidentToSave i)])
              \<and> calls_of (scan_tick s')
                  (addDoc_calls (run strict_platform (replicate (Suc (length (remaining s'))) (AddDocResolved (scan_tick s'))) ?F))
                  = map incidentToSave (newIncidents s')"
    and status: "systemStatus ?T = (if ?drafts = [] then ''Komplian Penuh'' else ''Insiden Terdeteksi'')"
    and all: "calls_of (ticks ?F)
               (addDoc_calls (run strict_platform (replicate (length ?drafts) (AddDocResolved (ticks ?F))) ?T))
              = map incidentToSave ?drafts"
    by blast+
  from bspec [OF ball mem3]
  have "calls_of 3 (addDoc_calls (run strict_platform (replicate (Suc 1) (AddDocResolved 3)) ?F))
          = map incidentToSave (newIncidents (hd (inflight ?F)))"
    unfolding s3 by blast
  then have "length (calls_of 3 (addDoc_calls (run strict_platform (replicate (Suc 1) (AddDocResolved 3)) ?F))) = 2"
    by (simp only: length_map s3)
  moreover have "replicate (Suc 1) (AddDocResolved 3) = [AddDocResolved 3, AddDocResolved 3]"
    by simp
  ultimately have other: "length (calls_of 3 (addDoc_calls (run strict_platform [AddDocResolved 3, AddDocResolved 3] ?F))) = 2"
    by (simp only:)
  from all have "length (calls_of 4 (addDoc_calls (run strict_platform (replicate 2 (AddDocResolved 4)) ?T))) = 2"
    unfolding d F by (simp only: length_map d)
  moreover have "replicate 2 (AddDocResolved 4) = [AddDocResolved 4, AddDocResolved 4]"
    by (simp add: numeral_2_eq_2)
  ultimately have new: "length (calls_of 4 (addDoc_calls (run strict_platform [AddDocResolved 4, AddDocResolved 4] ?T))) = 2"
    by (simp only:)
  have stat: "systemStatus ?T = ''Insiden Terdeteksi''"
    using status dne by (simp only: if_False)
  have con: "console ?F = [''Failed to log incident to Firestore:'']"
    unfolding c st by simp
  have one: "length (calls_of 2 (addDoc_calls ?F)) = 1"
    unfolding k by (rule st(4))
  from mem st(1,2) con F(1) one other stat new show ?thesis by (intro conjI)
qed

end
